theory Spec2Isabelle
  imports Main "HOL-Library.Word" "HOL-Library.Log_Nat"
begin

section \<open>JavaScript values used by split-grapheme.js\<close>

text \<open>
  A JavaScript string is a sequence of UTF-16 code units; \<open>length\<close> counts code units.
  A Number is an IEEE 754 binary64 value. Every Number that this program can build is
  finite, so Numbers are modelled as the rationals they denote, and every arithmetic
  operator rounds its exact result to the nearest binary64 value (ties to even).
  The exponent range of binary64 (overflow to infinity, subnormal numbers) is not modelled:
  the program starts from code units below \<open>2\<^sup>1\<^sup>6\<close> and divides by 28 and 588 only, so the
  magnitudes that occur lie between \<open>2\<^sup>-\<^sup>1\<^sup>0\<close> and \<open>2\<^sup>1\<^sup>7\<close>. The sign of zero is not
  modelled either: no operation of the program tells \<open>-0\<close> from \<open>0\<close>.
\<close>

type_synonym jsstring = "16 word list"

type_synonym number = rat

datatype jsvalue = JSNumber number | JSString jsstring | JSUndefined

text \<open>
  The three \<open>throw new Error(...)\<close> of the file, told apart by their messages:
  "the parameter must be at least one letter" (getGraphemeList),
  "the parameter must be one letter" (getUnicode),
  "unicode must be a number" (getInitialIndex, getMedialIndex, getFinalIndex).
\<close>

datatype error = AtLeastOneLetter | ExactlyOneLetter | MustBeNumber

subsection \<open>Rounding to binary64\<close>

text \<open>\<open>ilog2 q\<close> is the binary exponent of a non-zero \<open>q\<close>: \<open>2 powi e \<le> \<bar>q\<bar> < 2 powi (e + 1)\<close>.\<close>

definition ilog2 :: "rat \<Rightarrow> int" where
  "ilog2 q =
     (let (a, b) = quotient_of \<bar>q\<bar>;
          k = bitlen a - bitlen b
      in if 2 powi k \<le> \<bar>q\<bar> then k else k - 1)"

definition round_half_even :: "rat \<Rightarrow> int" where
  "round_half_even x =
     (let f = \<lfloor>x\<rfloor>; d = x - of_int f
      in if d < 1 / 2 then f
         else if 1 / 2 < d then f + 1
         else if even f then f else f + 1)"

text \<open>Round to nearest, ties to even, with a significand of 53 bits.\<close>

definition fl :: "rat \<Rightarrow> number" where
  "fl q =
     (if q = 0 then 0
      else let ulp = 2 powi (ilog2 q - 52)
           in of_int (round_half_even (q / ulp)) * ulp)"

subsection \<open>Operators and built-ins\<close>

definition js_add :: "number \<Rightarrow> number \<Rightarrow> number" where
  "js_add a b = fl (a + b)"

definition js_sub :: "number \<Rightarrow> number \<Rightarrow> number" where
  "js_sub a b = fl (a - b)"

definition js_mul :: "number \<Rightarrow> number \<Rightarrow> number" where
  "js_mul a b = fl (a * b)"

text \<open>The divisors of this program are non-zero constants.\<close>

definition js_div :: "number \<Rightarrow> number \<Rightarrow> number" where
  "js_div a b = fl (a / b)"

definition js_trunc :: "rat \<Rightarrow> int" where
  "js_trunc x = (if 0 \<le> x then \<lfloor>x\<rfloor> else \<lceil>x\<rceil>)"

text \<open>
  \<open>a % b\<close>: the remainder of the truncating division, with the sign of the dividend.
  Its exact value is always a binary64 value, so no rounding takes place.
\<close>

definition js_rem :: "number \<Rightarrow> number \<Rightarrow> number" where
  "js_rem a b = a - b * of_int (js_trunc (a / b))"

definition Math_floor :: "number \<Rightarrow> number" where
  "Math_floor x = of_int \<lfloor>x\<rfloor>"

text \<open>\<open>String.fromCharCode(n)\<close>: one code unit, \<open>ToUint16(n)\<close>.\<close>

definition fromCharCode :: "number \<Rightarrow> jsstring" where
  "fromCharCode n = [word_of_int (js_trunc n)]"

definition isLeadingSurrogate :: "16 word \<Rightarrow> bool" where
  "isLeadingSurrogate u = (0xD800 \<le> u \<and> u \<le> 0xDBFF)"

definition isTrailingSurrogate :: "16 word \<Rightarrow> bool" where
  "isTrailingSurrogate u = (0xDC00 \<le> u \<and> u \<le> 0xDFFF)"

text \<open>\<open>s.codePointAt(pos)\<close>: \<open>undefined\<close> past the end, a surrogate pair read as one code point.\<close>

definition codePointAt :: "jsstring \<Rightarrow> nat \<Rightarrow> jsvalue" where
  "codePointAt s pos =
     (if length s \<le> pos then JSUndefined
      else let first = s ! pos in
        if isLeadingSurrogate first \<and> pos + 1 < length s \<and> isTrailingSurrogate (s ! (pos + 1))
        then JSNumber (of_int ((uint first - 0xD800) * 0x400 + (uint (s ! (pos + 1)) - 0xDC00) + 0x10000))
        else JSNumber (of_int (uint first)))"

text \<open>
  The character class \<open>[U+3131-U+314E | U+AC00-U+D7A3]\<close> of the regular expression in
  getGraphemeList. Inside a class the bar is a literal character, U+007C. The expression has
  no \<open>u\<close> flag, so it is matched against code units.
\<close>

definition koreanClass :: "16 word \<Rightarrow> bool" where
  "koreanClass u = ((0x3131 \<le> u \<and> u \<le> 0x314E) \<or> u = 0x7C \<or> (0xAC00 \<le> u \<and> u \<le> 0xD7A3))"

text \<open>\<open>letter.match(/[...]/g)\<close> is an array (truthy) when some code unit is in the class, else null.\<close>

definition matchKorean :: "jsstring \<Rightarrow> bool" where
  "matchKorean letter = list_ex koreanClass letter"

section \<open>split-grapheme.js\<close>

definition korGAUnicode :: number where
  "korGAUnicode = 0xAC00"

definition firstInitial :: number where
  "firstInitial = 0x1100"

definition firstMedial :: number where
  "firstMedial = 0x1161"

definition firstFinal :: number where
  "firstFinal = 0x11A7"

definition initialCount :: number where
  "initialCount = 18"

definition medialCount :: number where
  "medialCount = 21"

definition finalCount :: number where
  "finalCount = 28"

definition getLetterFromUnicode :: "number \<Rightarrow> jsstring" where
  "getLetterFromUnicode unicode = fromCharCode unicode"

definition getInitialLetter :: "number \<Rightarrow> jsstring" where
  "getInitialLetter unicode = getLetterFromUnicode (js_add unicode firstInitial)"

definition getMedialLetter :: "number \<Rightarrow> jsstring" where
  "getMedialLetter unicode = getLetterFromUnicode (js_add unicode firstMedial)"

definition getFinalLetter :: "number \<Rightarrow> jsstring" where
  "getFinalLetter unicode = getLetterFromUnicode (js_add unicode firstFinal)"

text \<open>\<open>[...word]\<close>: the string iterator yields one string per code point, a surrogate pair as
  a string of two code units, every other code unit (a lone surrogate too) alone.\<close>

fun splitWord :: "jsstring \<Rightarrow> jsstring list" where
  "splitWord [] = []"
| "splitWord [a] = [[a]]"
| "splitWord (a # b # rest) =
     (if isLeadingSurrogate a \<and> isTrailingSurrogate b then [a, b] # splitWord rest
      else [a] # splitWord (b # rest))"

definition getUnicode :: "jsstring \<Rightarrow> error + jsvalue" where
  "getUnicode letter =
     (if length letter \<noteq> 1 then Inl ExactlyOneLetter
      else Inr (codePointAt letter 0))"

definition getInitialIndex :: "jsvalue \<Rightarrow> error + number" where
  "getInitialIndex unicode =
     (case unicode of
        JSNumber n \<Rightarrow> Inr (Math_floor (js_div (js_sub n korGAUnicode) (js_mul medialCount finalCount)))
      | _ \<Rightarrow> Inl MustBeNumber)"

definition getMedialIndex :: "jsvalue \<Rightarrow> error + number" where
  "getMedialIndex unicode =
     (case unicode of
        JSNumber n \<Rightarrow> Inr (Math_floor (js_rem (js_div (js_sub n korGAUnicode) finalCount) medialCount))
      | _ \<Rightarrow> Inl MustBeNumber)"

definition getFinalIndex :: "jsvalue \<Rightarrow> error + number" where
  "getFinalIndex unicode =
     (case unicode of
        JSNumber n \<Rightarrow> Inr (Math_floor (js_rem (js_sub n korGAUnicode) finalCount))
      | _ \<Rightarrow> Inl MustBeNumber)"

text \<open>The object \<open>{initial, medial, final}\<close> is a triple; the first throw ends the call.\<close>

definition splitGrapheme :: "jsvalue \<Rightarrow> error + (number \<times> number \<times> number)" where
  "splitGrapheme unicode =
     (case getInitialIndex unicode of
        Inl e \<Rightarrow> Inl e
      | Inr initial \<Rightarrow>
          (case getMedialIndex unicode of
             Inl e \<Rightarrow> Inl e
           | Inr medial \<Rightarrow>
               (case getFinalIndex unicode of
                  Inl e \<Rightarrow> Inl e
                | Inr final \<Rightarrow> Inr (initial, medial, final))))"

text \<open>
  The objects pushed by getGraphemeList. The non-Korean object has only the properties
  \<open>isKorean\<close> and \<open>initial\<close>: an absent property is \<open>None\<close>.
\<close>

record grapheme =
  isKorean :: bool
  initial :: jsstring
  medial :: "jsstring option"
  final :: "jsstring option"

text \<open>\<open>Array.prototype.reduce\<close> with an initial value; a throw of the callback ends it.\<close>

fun reduce :: "('b \<Rightarrow> 'a \<Rightarrow> error + 'b) \<Rightarrow> 'b \<Rightarrow> 'a list \<Rightarrow> error + 'b" where
  "reduce f acc [] = Inr acc"
| "reduce f acc (x # xs) = (case f acc x of Inl e \<Rightarrow> Inl e | Inr acc' \<Rightarrow> reduce f acc' xs)"

text \<open>
  The callback of the reduce in getGraphemeList: \<open>arr.push(...)\<close>, then \<open>return arr\<close>.
  The destructured \<open>{initial, medial, final}\<close> are primed here, the plain names being the
  properties of the pushed object.
\<close>

definition pushGrapheme :: "grapheme list \<Rightarrow> jsstring \<Rightarrow> error + grapheme list" where
  "pushGrapheme arr letter =
     (if matchKorean letter then
        (case getUnicode letter of
           Inl e \<Rightarrow> Inl e
         | Inr unicode \<Rightarrow>
             (case splitGrapheme unicode of
                Inl e \<Rightarrow> Inl e
              | Inr (initial', medial', final') \<Rightarrow>
                  Inr (arr @ [\<lparr>isKorean = True,
                               initial = getInitialLetter initial',
                               medial = Some (getMedialLetter medial'),
                               final = Some (getFinalLetter final')\<rparr>])))
      else Inr (arr @ [\<lparr>isKorean = False, initial = letter, medial = None, final = None\<rparr>]))"

definition getGraphemeList :: "jsstring \<Rightarrow> error + grapheme list" where
  "getGraphemeList word =
     (if length word < 1 then Inl AtLeastOneLetter
      else reduce pushGrapheme [] (splitWord word))"

section \<open>The code points of a string\<close>

text \<open>
  The specification counts the code points of the input. This second reading of a string
  follows ECMAScript's StringToCodePoints: read the code point at position 0 with
  CodePointAt, go on after the code units it took. It is compared with \<open>splitWord\<close> below.
\<close>

definition codeUnitCount :: "jsstring \<Rightarrow> nat \<Rightarrow> nat" where
  "codeUnitCount s pos =
     (if isLeadingSurrogate (s ! pos) \<and> pos + 1 < length s \<and> isTrailingSurrogate (s ! (pos + 1))
      then 2 else 1)"

function codePointsFrom :: "jsstring \<Rightarrow> nat \<Rightarrow> jsvalue list" where
  "codePointsFrom s pos =
     (if length s \<le> pos then []
      else codePointAt s pos # codePointsFrom s (pos + codeUnitCount s pos))"
  by pat_completeness auto
termination
  by (relation "measure (\<lambda>(s, pos). length s - pos)") (auto simp: codeUnitCount_def)

declare codePointsFrom.simps [simp del]

definition codePoints :: "jsstring \<Rightarrow> jsvalue list" where
  "codePoints s = codePointsFrom s 0"

section \<open>Rounding never disturbs the integer arithmetic\<close>

lemma quotient_of_abs:
  assumes "q \<noteq> 0" and "quotient_of \<bar>q\<bar> = (a, b)"
  shows "0 < a" and "0 < b" and "\<bar>q\<bar> = of_int a / of_int b"
proof -
  show b: "0 < b" using assms(2) by (rule quotient_of_denom_pos)
  show eq: "\<bar>q\<bar> = of_int a / of_int b" using assms(2) by (rule quotient_of_div)
  have "0 < \<bar>q\<bar>" using assms(1) by simp
  then have "0 < (of_int a :: rat) / of_int b" using eq by simp
  then show "0 < a" using b by (simp add: zero_less_divide_iff)
qed

lemma bitlen_powi:
  assumes "0 < x"
  shows "(2::rat) powi (bitlen x - 1) \<le> of_int x" and "of_int x < (2::rat) powi (bitlen x)"
proof -
  have b: "2 ^ nat (bitlen x - 1) \<le> x" "x < 2 ^ nat (bitlen x)"
    using bitlen_bounds [OF assms] by simp_all
  have ge1: "1 \<le> bitlen x" using assms by (auto simp: bitlen_alt_def)
  have "(of_int (2 ^ nat (bitlen x - 1)) :: rat) \<le> of_int x"
    using b(1) by (simp only: of_int_le_iff)
  then show "(2::rat) powi (bitlen x - 1) \<le> of_int x"
    using ge1 by (simp add: power_int_nonneg_exp)
  have "(of_int x :: rat) < of_int (2 ^ nat (bitlen x))"
    using b(2) by (simp only: of_int_less_iff)
  then show "of_int x < (2::rat) powi (bitlen x)"
    using ge1 by (simp add: power_int_nonneg_exp)
qed

lemma ilog2_bracket_aux:
  assumes "q \<noteq> 0" and qo: "quotient_of \<bar>q\<bar> = (a, b)"
  shows "(2::rat) powi (bitlen a - bitlen b - 1) \<le> \<bar>q\<bar>"
    and "\<bar>q\<bar> < (2::rat) powi (bitlen a - bitlen b + 1)"
proof -
  note f = quotient_of_abs [OF assms]
  note A = bitlen_powi [OF f(1)]
  note B = bitlen_powi [OF f(2)]
  have bpos: "(0::rat) < of_int b" using f(2) by simp
  have "(2::rat) powi (bitlen a - bitlen b - 1) = 2 powi (bitlen a - 1) / 2 powi (bitlen b)"
    by (simp add: power_int_diff)
  also have "\<dots> \<le> of_int a / 2 powi (bitlen b)"
    using A(1) by (simp add: divide_right_mono)
  also have "\<dots> \<le> of_int a / of_int b"
    using B(2) bpos f(1) by (simp add: frac_le)
  finally show "(2::rat) powi (bitlen a - bitlen b - 1) \<le> \<bar>q\<bar>" using f(3) by simp
  have p: "(0::rat) < 2 powi (bitlen b - 1)" by simp
  have "\<bar>q\<bar> = of_int a / of_int b" by (rule f(3))
  also have "\<dots> \<le> of_int a / 2 powi (bitlen b - 1)"
    using B(1) p f(1) by (simp add: frac_le)
  also have "\<dots> < 2 powi (bitlen a) / 2 powi (bitlen b - 1)"
    using A(2) p by (simp add: divide_strict_right_mono)
  also have "\<dots> = (2::rat) powi (bitlen a - bitlen b + 1)"
    by (simp add: power_int_diff power_int_add)
  finally show "\<bar>q\<bar> < (2::rat) powi (bitlen a - bitlen b + 1)" .
qed

lemma ilog2_lower: "q \<noteq> 0 \<Longrightarrow> 2 powi (ilog2 q) \<le> \<bar>q\<bar>"
  using ilog2_bracket_aux(1) [of q]
  by (auto simp: ilog2_def Let_def split: prod.splits)

lemma ilog2_upper: "q \<noteq> 0 \<Longrightarrow> \<bar>q\<bar> < 2 powi (ilog2 q + 1)"
  using ilog2_bracket_aux(2) [of q]
  by (auto simp: ilog2_def Let_def not_le split: prod.splits)

lemma round_half_even_error: "\<bar>of_int (round_half_even x) - x\<bar> \<le> 1 / 2"
proof -
  have "of_int \<lfloor>x\<rfloor> \<le> x" "x < of_int \<lfloor>x\<rfloor> + 1" by linarith+
  then show ?thesis
    by (auto simp: round_half_even_def Let_def)
qed

lemma round_half_even_of_int: "round_half_even (of_int k) = k"
  by (simp add: round_half_even_def)


lemma fl_error:
  assumes "q \<noteq> 0"
  shows "\<bar>fl q - q\<bar> \<le> \<bar>q\<bar> / 2 ^ 53"
proof -
  define ulp :: rat where "ulp = 2 powi (ilog2 q - 52)"
  have ulp_pos: "0 < ulp" by (simp add: ulp_def)
  have ulp_le: "ulp \<le> \<bar>q\<bar> / 2 ^ 52"
  proof -
    have "ulp = 2 powi (ilog2 q) / 2 ^ 52"
      by (simp add: ulp_def power_int_diff)
    also have "\<dots> \<le> \<bar>q\<bar> / 2 ^ 52"
      using ilog2_lower [OF assms] by (simp add: divide_right_mono)
    finally show ?thesis .
  qed
  have "fl q - q = (of_int (round_half_even (q / ulp)) - q / ulp) * ulp"
    using assms ulp_pos by (simp add: fl_def ulp_def [symmetric] Let_def algebra_simps)
  then have "\<bar>fl q - q\<bar> = \<bar>of_int (round_half_even (q / ulp)) - q / ulp\<bar> * ulp"
    using ulp_pos by (simp add: abs_mult)
  also have "\<dots> \<le> (1 / 2) * ulp"
    using round_half_even_error [of "q / ulp"] ulp_pos by (simp add: mult_right_mono)
  also have "\<dots> \<le> (1 / 2) * (\<bar>q\<bar> / 2 ^ 52)"
    using ulp_le by simp
  finally show ?thesis by simp
qed

lemma fl_of_int:
  assumes "\<bar>k\<bar> < 2 ^ 53"
  shows "fl (of_int k) = of_int k"
proof (cases "k = 0")
  case True
  then show ?thesis by (simp add: fl_def)
next
  case False
  define e where "e = ilog2 (of_int k)"
  have nz: "(of_int k :: rat) \<noteq> 0" using False by simp
  have "(2::rat) powi e \<le> \<bar>of_int k\<bar>"
    unfolding e_def by (rule ilog2_lower [OF nz])
  also have "\<dots> < 2 powi 53"
    using assms by (simp flip: of_int_abs)
  finally have lt: "(2::rat) powi e < 2 powi 53" .
  have "e < 53"
  proof (rule ccontr)
    assume "\<not> e < 53"
    then have "(2::rat) powi 53 \<le> 2 powi e"
      by (intro power_int_increasing) auto
    with lt show False by simp
  qed
  define n where "n = nat (52 - e)"
  have n: "52 - e = int n" using \<open>e < 53\<close> by (simp add: n_def)
  have ulp: "(2::rat) powi (e - 52) = 1 / 2 ^ n"
  proof -
    have "e - 52 = - int n" using n by simp
    then show ?thesis by (simp add: power_int_minus_divide)
  qed
  have "of_int k / (1 / 2 ^ n) = (of_int (k * 2 ^ n) :: rat)" by simp
  then have "round_half_even (of_int k / (1 / 2 ^ n)) = k * 2 ^ n"
    by (simp only: round_half_even_of_int)
  then show ?thesis
    using nz by (simp add: fl_def e_def [symmetric] ulp Let_def)
qed

lemma floor_fl_div:
  assumes k: "\<bar>k\<bar> < 2 ^ 53" and d: "0 < d"
  shows "\<lfloor>fl (of_int k / of_int d)\<rfloor> = k div d"
proof (cases "d dvd k")
  case True
  then obtain j where j: "k = d * j" ..
  have "1 * \<bar>j\<bar> \<le> d * \<bar>j\<bar>" using d by (intro mult_right_mono) auto
  then have "\<bar>j\<bar> \<le> \<bar>k\<bar>" using j d by (simp add: abs_mult)
  then have "\<bar>j\<bar> < 2 ^ 53" using k by linarith
  moreover have "(of_int k / of_int d :: rat) = of_int j" using j d by simp
  moreover have "k div d = j" using j d by simp
  ultimately show ?thesis by (simp add: fl_of_int)
next
  case False
  define q :: rat where "q = of_int k / of_int d"
  define m where "m = k div d"
  have dpos: "(0::rat) < of_int d" using d by simp
  have r: "0 < k mod d" "k mod d < d"
    using False d pos_mod_sign [of d k] pos_mod_bound [of d k]
    by (auto simp: dvd_eq_mod_eq_0 less_le)
  have keq: "k = m * d + k mod d" by (simp add: m_def)
  have qeq: "q = of_int m + of_int (k mod d) / of_int d"
  proof -
    have "(of_int k :: rat) = of_int m * of_int d + of_int (k mod d)"
      by (metis keq of_int_add of_int_mult)
    then show ?thesis using dpos by (simp add: q_def field_simps)
  qed
  have lo: "of_int m + 1 / of_int d \<le> q"
  proof -
    have "(1::rat) \<le> of_int (k mod d)" using r(1) by (simp add: int_one_le_iff_zero_less)
    then have "(1::rat) / of_int d \<le> of_int (k mod d) / of_int d"
      using dpos by (simp add: divide_right_mono)
    then show ?thesis using qeq by simp
  qed
  have hi: "q \<le> of_int m + 1 - 1 / of_int d"
  proof -
    have "k mod d \<le> d - 1" using r(2) by simp
    then have "(of_int (k mod d) :: rat) \<le> of_int d - 1"
      by (metis of_int_le_iff of_int_diff of_int_1)
    then have "(of_int (k mod d) :: rat) / of_int d \<le> (of_int d - 1) / of_int d"
      using dpos by (simp add: divide_right_mono)
    also have "\<dots> = 1 - 1 / of_int d" using dpos by (simp add: field_simps)
    finally show ?thesis using qeq by simp
  qed
  have qnz: "q \<noteq> 0" using False d by (auto simp: q_def)
  have "\<bar>q\<bar> = of_int \<bar>k\<bar> / of_int d" using d by (simp add: q_def)
  also have "\<dots> < 2 ^ 53 / of_int d"
  proof -
    have "(of_int \<bar>k\<bar> :: rat) < 2 ^ 53" using k by (simp only: of_int_less_numeral_power_cancel_iff)
    then show ?thesis using dpos by (simp add: divide_strict_right_mono)
  qed
  finally have "\<bar>q\<bar> / 2 ^ 53 < 1 / of_int d" by simp
  then have err: "\<bar>fl q - q\<bar> < 1 / of_int d"
    using fl_error [OF qnz] by linarith
  have "of_int m \<le> fl q" "fl q < of_int m + 1"
    using err lo hi by linarith+
  then have "\<lfloor>fl q\<rfloor> = m" by (simp add: floor_unique)
  then show ?thesis by (simp add: q_def m_def)
qed


section \<open>The index functions on integer code points\<close>

lemma floor_divide_int:
  fixes x :: rat
  assumes "0 < l"
  shows "\<lfloor>x / of_int l\<rfloor> = \<lfloor>x\<rfloor> div l"
proof (rule floor_unique)
  define m where "m = \<lfloor>x\<rfloor>"
  have lpos: "(0::rat) < of_int l" using assms by simp
  have mx: "of_int m \<le> x" "x < of_int m + 1" unfolding m_def by linarith+
  have "(m div l) * l \<le> m"
    using div_mult_mod_eq [of m l] pos_mod_sign [OF assms, of m] by linarith
  then have "(of_int ((m div l) * l) :: rat) \<le> of_int m" by (simp only: of_int_le_iff)
  then have "of_int (m div l) * of_int l \<le> x" using mx(1) by simp
  then show "of_int (\<lfloor>x\<rfloor> div l) \<le> x / of_int l"
    using lpos by (simp add: m_def pos_le_divide_eq)
  have "m mod l \<le> l - 1" using pos_mod_bound [OF assms, of m] by simp
  then have "m + 1 \<le> (m div l) * l + l"
    using div_mult_mod_eq [of m l] by linarith
  then have "m + 1 \<le> (m div l + 1) * l" by (simp add: algebra_simps)
  then have "(of_int (m + 1) :: rat) \<le> of_int ((m div l + 1) * l)" by (simp only: of_int_le_iff)
  then have "x < (of_int (m div l) + 1) * of_int l" using mx(2) by simp
  then show "x / of_int l < of_int (\<lfloor>x\<rfloor> div l) + 1"
    using lpos by (simp add: m_def pos_divide_less_eq)
qed

lemma js_sub_int:
  "\<bar>a - b\<bar> < 2 ^ 53 \<Longrightarrow> js_sub (of_int a) (of_int b) = of_int (a - b)"
  using fl_of_int [of "a - b"] by (simp add: js_sub_def)

lemma js_add_int:
  "\<bar>a + b\<bar> < 2 ^ 53 \<Longrightarrow> js_add (of_int a) (of_int b) = of_int (a + b)"
  using fl_of_int [of "a + b"] by (simp add: js_add_def)

lemma js_mul_int:
  "\<bar>a * b\<bar> < 2 ^ 53 \<Longrightarrow> js_mul (of_int a) (of_int b) = of_int (a * b)"
  using fl_of_int [of "a * b"] by (simp add: js_mul_def)

lemma offset_int:
  assumes "0xAC00 \<le> n" and "n < 2 ^ 52"
  shows "js_sub (of_int n) korGAUnicode = of_int (n - 0xAC00)"
proof -
  have "\<bar>n - 0xAC00\<bar> < 2 ^ 53" using assms by simp
  then have "js_sub (of_int n) (of_int 0xAC00) = of_int (n - 0xAC00)" by (rule js_sub_int)
  then show ?thesis by (simp add: korGAUnicode_def)
qed

lemma getInitialIndex_int:
  assumes "0xAC00 \<le> n" and "n < 2 ^ 52"
  shows "getInitialIndex (JSNumber (of_int n)) = Inr (of_int ((n - 0xAC00) div 588))"
proof -
  have "js_mul (of_int 21) (of_int 28) = of_int (21 * 28)" by (rule js_mul_int) simp
  then have m: "js_mul medialCount finalCount = of_int 588"
    by (simp add: medialCount_def finalCount_def)
  have "\<lfloor>fl (of_int (n - 0xAC00) / of_int 588)\<rfloor> = (n - 0xAC00) div 588"
    using assms by (intro floor_fl_div) simp_all
  then show ?thesis
    using offset_int [OF assms] m by (simp add: getInitialIndex_def Math_floor_def js_div_def)
qed

lemma getFinalIndex_int:
  assumes "0xAC00 \<le> n" and "n < 2 ^ 52"
  shows "getFinalIndex (JSNumber (of_int n)) = Inr (of_int ((n - 0xAC00) mod 28))"
proof -
  define k where "k = n - 0xAC00"
  have k0: "0 \<le> k" using assms by (simp add: k_def)
  have "(0::rat) \<le> of_int k / of_int 28" using k0 by simp
  then have "js_trunc (of_int k / of_int 28) = k div 28"
    by (simp only: js_trunc_def if_True floor_divide_of_int_eq)
  then have "js_rem (of_int k) (of_int 28) = of_int (k - 28 * (k div 28))"
    by (simp add: js_rem_def)
  also have "k - 28 * (k div 28) = k mod 28"
    by (simp add: minus_mult_div_eq_mod)
  finally have "js_rem (of_int k) finalCount = of_int (k mod 28)"
    by (simp add: finalCount_def)
  then show ?thesis
    using offset_int [OF assms] by (simp add: getFinalIndex_def Math_floor_def k_def)
qed

lemma getMedialIndex_int:
  assumes "0xAC00 \<le> n" and "n < 2 ^ 52"
  shows "getMedialIndex (JSNumber (of_int n)) = Inr (of_int (((n - 0xAC00) div 28) mod 21))"
proof -
  define k where "k = n - 0xAC00"
  define Q where "Q = fl (of_int k / of_int 28)"
  have k0: "0 \<le> k" and k53: "\<bar>k\<bar> < 2 ^ 53" using assms by (simp_all add: k_def)
  have fQ: "\<lfloor>Q\<rfloor> = k div 28"
    unfolding Q_def using k53 by (intro floor_fl_div) simp_all
  have "0 \<le> k div 28" using k0 by (simp add: pos_imp_zdiv_nonneg_iff)
  then have "0 \<le> \<lfloor>Q\<rfloor>" using fQ by simp
  then have Q0: "0 \<le> Q" by (simp add: zero_le_floor)
  then have "(0::rat) \<le> Q / of_int 21" by simp
  then have "js_trunc (Q / of_int 21) = \<lfloor>Q / of_int 21\<rfloor>"
    by (simp only: js_trunc_def if_True)
  also have "\<dots> = \<lfloor>Q\<rfloor> div 21" by (rule floor_divide_int) simp
  finally have t: "js_trunc (Q / of_int 21) = (k div 28) div 21" using fQ by simp
  have "js_rem Q (of_int 21) = Q - of_int (21 * ((k div 28) div 21))"
    by (simp only: js_rem_def t of_int_mult)
  then have "\<lfloor>js_rem Q (of_int 21)\<rfloor> = \<lfloor>Q\<rfloor> - 21 * ((k div 28) div 21)"
    by (simp only: floor_diff_of_int)
  also have "\<dots> = (k div 28) mod 21"
    using fQ by (simp add: minus_mult_div_eq_mod)
  finally have "Math_floor (js_rem Q medialCount) = of_int ((k div 28) mod 21)"
    by (simp add: Math_floor_def medialCount_def)
  then show ?thesis
    using offset_int [OF assms]
    by (simp add: getMedialIndex_def js_div_def Q_def k_def finalCount_def)
qed


section \<open>Claims about the index arithmetic\<close>

lemma offset_decomposition:
  fixes k :: int
  shows "(k div 588) * 21 * 28 + ((k div 28) mod 21) * 28 + k mod 28 = k"
proof -
  have "k div 588 = (k div 28) div 21"
    using zdiv_zmult2_eq [of 21 k 28] by simp
  then have "(k div 588) * 21 + (k div 28) mod 21 = k div 28"
    by (simp add: div_mult_mod_eq)
  then have "((k div 588) * 21 + (k div 28) mod 21) * 28 + k mod 28 = k"
    by (simp add: div_mult_mod_eq)
  then show ?thesis by (simp add: algebra_simps)
qed

text \<open>
  C1. For every code point \<open>c\<close> from U+AC00 to U+D7A3, the three index functions return
  numbers \<open>i\<close>, \<open>m\<close>, \<open>f\<close> with \<open>i * 21 * 28 + m * 28 + f = c - 0xAC00\<close>.
\<close>

theorem round_trip_law:
  assumes "0xAC00 \<le> c" and "c \<le> 0xD7A3"
  shows "\<exists>i m f. getInitialIndex (JSNumber (of_int c)) = Inr i
           \<and> getMedialIndex (JSNumber (of_int c)) = Inr m
           \<and> getFinalIndex (JSNumber (of_int c)) = Inr f
           \<and> i * 21 * 28 + m * 28 + f = of_int c - 0xAC00"
proof -
  define k where "k = c - 0xAC00"
  have c52: "c < 2 ^ 52" using assms(2) by simp
  have "(of_int ((k div 588) * 21 * 28 + ((k div 28) mod 21) * 28 + k mod 28) :: rat) = of_int k"
    by (simp only: offset_decomposition)
  then have "(of_int (k div 588) :: rat) * 21 * 28 + of_int ((k div 28) mod 21) * 28
      + of_int (k mod 28) = of_int c - 0xAC00"
    by (simp add: k_def)
  then show ?thesis
    using getInitialIndex_int [OF assms(1) c52] getMedialIndex_int [OF assms(1) c52]
      getFinalIndex_int [OF assms(1) c52]
    by (simp add: k_def)
qed

theorem round_trip_law_witness:
  "(0xAC00::int) \<le> 0xD55C \<and> (0xD55C::int) \<le> 0xD7A3
   \<and> (\<exists>i m f. getInitialIndex (JSNumber 0xD55C) = Inr i
           \<and> getMedialIndex (JSNumber 0xD55C) = Inr m
           \<and> getFinalIndex (JSNumber 0xD55C) = Inr f
           \<and> i * 21 * 28 + m * 28 + f = 0xD55C - 0xAC00)"
  using round_trip_law [of "0xD55C"] by simp

text \<open>
  C2, as stated, bounds the initial index by 18. The last syllable, U+D7A3, has the initial
  index 18, which is not below \<open>initialCount\<close>.
\<close>

theorem initial_index_reaches_18:
  "getInitialIndex (JSNumber 0xD7A3) = Inr 18 \<and> \<not> (18 < initialCount)"
  using getInitialIndex_int [of "0xD7A3"] by (simp add: initialCount_def)

text \<open>
  C2, amended. For every code point \<open>c\<close> from U+AC00 to U+D7A3 the three indices are
  integers, the initial index in \<open>[0, 19)\<close>, the medial index in \<open>[0, 21)\<close> and the final
  index in \<open>[0, 28)\<close>.
\<close>

theorem index_bounds:
  assumes "0xAC00 \<le> c" and "c \<le> 0xD7A3"
  shows "\<exists>i m f :: int. getInitialIndex (JSNumber (of_int c)) = Inr (of_int i)
           \<and> getMedialIndex (JSNumber (of_int c)) = Inr (of_int m)
           \<and> getFinalIndex (JSNumber (of_int c)) = Inr (of_int f)
           \<and> 0 \<le> i \<and> i < 19 \<and> 0 \<le> m \<and> of_int m < medialCount
           \<and> 0 \<le> f \<and> of_int f < finalCount"
proof -
  define k where "k = c - 0xAC00"
  have c52: "c < 2 ^ 52" using assms(2) by simp
  have k: "0 \<le> k" "k \<le> 11171" using assms by (simp_all add: k_def)
  have "k div 588 * 588 + k mod 588 = k" "0 \<le> k mod 588"
    by (simp_all add: div_mult_mod_eq)
  then have i: "0 \<le> k div 588" "k div 588 < 19"
    using k by (simp add: pos_imp_zdiv_nonneg_iff, linarith)
  have m: "0 \<le> (k div 28) mod 21" "(of_int ((k div 28) mod 21) :: rat) < medialCount"
    by (simp_all add: medialCount_def)
  have f: "0 \<le> k mod 28" "(of_int (k mod 28) :: rat) < finalCount"
    by (simp_all add: finalCount_def)
  have "getInitialIndex (JSNumber (of_int c)) = Inr (of_int (k div 588))"
    unfolding k_def by (rule getInitialIndex_int [OF assms(1) c52])
  moreover have "getMedialIndex (JSNumber (of_int c)) = Inr (of_int ((k div 28) mod 21))"
    unfolding k_def by (rule getMedialIndex_int [OF assms(1) c52])
  moreover have "getFinalIndex (JSNumber (of_int c)) = Inr (of_int (k mod 28))"
    unfolding k_def by (rule getFinalIndex_int [OF assms(1) c52])
  ultimately show ?thesis using i m f by blast
qed

theorem index_bounds_witness:
  "(0xAC00::int) \<le> 0xD7A3 \<and> (0xD7A3::int) \<le> 0xD7A3
   \<and> (\<exists>i m f :: int. getInitialIndex (JSNumber 0xD7A3) = Inr (of_int i)
           \<and> getMedialIndex (JSNumber 0xD7A3) = Inr (of_int m)
           \<and> getFinalIndex (JSNumber 0xD7A3) = Inr (of_int f)
           \<and> 0 \<le> i \<and> i < 19 \<and> 0 \<le> m \<and> of_int m < medialCount
           \<and> 0 \<le> f \<and> of_int f < finalCount)"
  using index_bounds [of "0xD7A3"] by simp



section \<open>getGraphemeList, letter by letter\<close>

lemma splitWord_concat: "concat (splitWord w) = w"
  by (induction w rule: splitWord.induct) auto

lemma splitWord_shape:
  "l \<in> set (splitWord w) \<Longrightarrow>
     (\<exists>a. l = [a]) \<or> (\<exists>a b. l = [a, b] \<and> isLeadingSurrogate a \<and> isTrailingSurrogate b)"
  by (induction w rule: splitWord.induct) (auto split: if_splits)

lemma splitWord_nonempty: "w \<noteq> [] \<Longrightarrow> splitWord w \<noteq> []"
  by (induction w rule: splitWord.induct) auto

lemma surrogate_not_korean:
  "isLeadingSurrogate u \<or> isTrailingSurrogate u \<Longrightarrow> \<not> koreanClass u"
  unfolding isLeadingSurrogate_def isTrailingSurrogate_def koreanClass_def word_le_def
  by auto

lemma matchKorean_letter:
  assumes "l \<in> set (splitWord w)" and "matchKorean l"
  shows "\<exists>a. l = [a] \<and> koreanClass a"
  using splitWord_shape [OF assms(1)] assms(2) surrogate_not_korean
  by (auto simp: matchKorean_def)

lemma getUnicode_unit: "getUnicode [a] = Inr (JSNumber (of_int (uint a)))"
  by (simp add: getUnicode_def codePointAt_def)

lemma splitGrapheme_number:
  "splitGrapheme (JSNumber n) =
     Inr (Math_floor (js_div (js_sub n korGAUnicode) (js_mul medialCount finalCount)),
          Math_floor (js_rem (js_div (js_sub n korGAUnicode) finalCount) medialCount),
          Math_floor (js_rem (js_sub n korGAUnicode) finalCount))"
  by (simp add: splitGrapheme_def getInitialIndex_def getMedialIndex_def getFinalIndex_def)

lemma pushGrapheme_korean_unit:
  assumes "koreanClass a" and "splitGrapheme (JSNumber (of_int (uint a))) = Inr (i, m, f)"
  shows "pushGrapheme arr [a] =
     Inr (arr @ [\<lparr>isKorean = True, initial = getInitialLetter i,
                  medial = Some (getMedialLetter m), final = Some (getFinalLetter f)\<rparr>])"
  using assms by (simp add: pushGrapheme_def matchKorean_def getUnicode_unit)

lemma pushGrapheme_other:
  "\<not> matchKorean l \<Longrightarrow>
     pushGrapheme arr l = Inr (arr @ [\<lparr>isKorean = False, initial = l, medial = None, final = None\<rparr>])"
  by (simp add: pushGrapheme_def)

lemma pushGrapheme_letter:
  assumes "l \<in> set (splitWord w)"
  shows "\<exists>g. \<forall>arr. pushGrapheme arr l = Inr (arr @ [g])"
proof (cases "matchKorean l")
  case True
  then obtain a where a: "l = [a]" "koreanClass a"
    using matchKorean_letter [OF assms] by blast
  obtain i m f where "splitGrapheme (JSNumber (of_int (uint a))) = Inr (i, m, f)"
    using splitGrapheme_number by blast
  then show ?thesis using pushGrapheme_korean_unit [OF a(2)] a(1) by blast
next
  case False
  then show ?thesis using pushGrapheme_other by blast
qed

lemma reduce_pushGrapheme:
  assumes "\<forall>l \<in> set ls. \<exists>g. \<forall>arr. pushGrapheme arr l = Inr (arr @ [g])"
  shows "\<exists>gs. reduce pushGrapheme acc ls = Inr (acc @ gs) \<and> length gs = length ls
           \<and> (\<forall>i < length ls. pushGrapheme [] (ls ! i) = Inr [gs ! i])"
  using assms
proof (induction ls arbitrary: acc)
  case Nil
  then show ?case by simp
next
  case (Cons l ls)
  obtain g where g: "\<And>arr. pushGrapheme arr l = Inr (arr @ [g])"
    using Cons.prems by auto
  obtain gs where gs: "reduce pushGrapheme (acc @ [g]) ls = Inr ((acc @ [g]) @ gs)"
      "length gs = length ls" "\<forall>i < length ls. pushGrapheme [] (ls ! i) = Inr [gs ! i]"
    using Cons.IH [of "acc @ [g]"] Cons.prems by auto
  have "reduce pushGrapheme acc (l # ls) = Inr (acc @ (g # gs))"
    using g gs(1) by simp
  moreover have "length (g # gs) = length (l # ls)" using gs(2) by simp
  moreover have "\<forall>i < length (l # ls). pushGrapheme [] ((l # ls) ! i) = Inr [(g # gs) ! i]"
    using g [of "[]"] gs(3) by (auto simp: nth_Cons split: nat.splits)
  ultimately show ?case by blast
qed

lemma getGraphemeList_letters:
  assumes "word \<noteq> []"
  shows "\<exists>rs. getGraphemeList word = Inr rs \<and> length rs = length (splitWord word)
           \<and> (\<forall>i < length rs. pushGrapheme [] (splitWord word ! i) = Inr [rs ! i])"
proof -
  have "\<forall>l \<in> set (splitWord word). \<exists>g. \<forall>arr. pushGrapheme arr l = Inr (arr @ [g])"
    using pushGrapheme_letter by blast
  from reduce_pushGrapheme [OF this, of "[]"] assms show ?thesis
    by (auto simp: getGraphemeList_def)
qed


lemma codePointAt_last:
  "codePointAt (p @ [a]) (length p) = codePointAt [a] 0"
  "codeUnitCount (p @ [a]) (length p) = 1"
  by (simp_all add: codePointAt_def codeUnitCount_def)

lemma codePointAt_pair:
  assumes "isLeadingSurrogate a \<and> isTrailingSurrogate b"
  shows "codePointAt (p @ a # b # rest) (length p) = codePointAt [a, b] 0"
    and "codeUnitCount (p @ a # b # rest) (length p) = 2"
  using assms by (simp_all add: codePointAt_def codeUnitCount_def nth_append)

lemma codePointAt_single:
  assumes "\<not> (isLeadingSurrogate a \<and> isTrailingSurrogate b)"
  shows "codePointAt (p @ a # b # rest) (length p) = codePointAt [a] 0"
    and "codeUnitCount (p @ a # b # rest) (length p) = 1"
  using assms by (auto simp: codePointAt_def codeUnitCount_def nth_append)

lemma codePointsFrom_splitWord:
  "codePointsFrom (p @ w) (length p) = map (\<lambda>l. codePointAt l 0) (splitWord w)"
proof (induction w arbitrary: p rule: splitWord.induct)
  case 1
  show ?case by (subst codePointsFrom.simps) simp
next
  case (2 a)
  have "codePointsFrom (p @ [a]) (length p + 1) = []"
    by (subst codePointsFrom.simps) simp
  then show ?case
    by (subst codePointsFrom.simps) (simp add: codePointAt_last)
next
  case (3 a b rest)
  show ?case
  proof (cases "isLeadingSurrogate a \<and> isTrailingSurrogate b")
    case True
    have "codePointsFrom ((p @ [a, b]) @ rest) (length (p @ [a, b]))
        = map (\<lambda>l. codePointAt l 0) (splitWord rest)"
      using True by (intro "3.IH"(1)) simp
    then have "codePointsFrom (p @ a # b # rest) (length p + 2)
        = map (\<lambda>l. codePointAt l 0) (splitWord rest)"
      by simp
    moreover have "splitWord (a # b # rest) = [a, b] # splitWord rest"
      using True by simp
    ultimately show ?thesis
      by (subst codePointsFrom.simps) (simp add: codePointAt_pair [OF True] del: splitWord.simps)
  next
    case False
    have "codePointsFrom ((p @ [a]) @ b # rest) (length (p @ [a]))
        = map (\<lambda>l. codePointAt l 0) (splitWord (b # rest))"
      using False by (intro "3.IH"(2)) simp
    then have "codePointsFrom (p @ a # b # rest) (length p + 1)
        = map (\<lambda>l. codePointAt l 0) (splitWord (b # rest))"
      by simp
    moreover have "splitWord (a # b # rest) = [a] # splitWord (b # rest)"
      using False by auto
    ultimately show ?thesis
      by (subst codePointsFrom.simps) (simp add: codePointAt_single [OF False] del: splitWord.simps)
  qed
qed

lemma codePoints_splitWord: "map (\<lambda>l. codePointAt l 0) (splitWord w) = codePoints w"
  using codePointsFrom_splitWord [of "[]" w] by (simp add: codePoints_def)

lemma getFinalLetter_zero: "getFinalLetter 0 = [0x11A7]"
proof -
  have "js_add (of_int 0) (of_int 0x11A7) = of_int (0 + 0x11A7)"
    by (rule js_add_int) simp
  then show ?thesis
    by (simp add: getFinalLetter_def getLetterFromUnicode_def fromCharCode_def firstFinal_def
        js_trunc_def)
qed

lemma syllable_is_korean: "0xAC00 \<le> c \<Longrightarrow> c \<le> 0xD7A3 \<Longrightarrow> koreanClass c"
  by (simp add: koreanClass_def)

lemma jamo_is_korean: "0x3131 \<le> c \<Longrightarrow> c \<le> 0x314E \<Longrightarrow> koreanClass c"
  by (simp add: koreanClass_def)

lemma getGraphemeList_unit:
  assumes "koreanClass c" and "splitGrapheme (JSNumber (of_int (uint c))) = Inr (i, m, f)"
  shows "getGraphemeList [c] =
     Inr [\<lparr>isKorean = True, initial = getInitialLetter i,
           medial = Some (getMedialLetter m), final = Some (getFinalLetter f)\<rparr>]"
  using pushGrapheme_korean_unit [OF assms, of "[]"] by (simp add: getGraphemeList_def)

lemma han_value:
  "getGraphemeList [0xD55C] =
     Inr [\<lparr>isKorean = True, initial = [0x1112], medial = Some [0x1161], final = Some [0x11AB]\<rparr>]"
  by code_simp

lemma getUnicode_throws_iff: "(\<exists>e. getUnicode letter = Inl e) = (length letter \<noteq> 1)"
  by (simp add: getUnicode_def)

text \<open>The same functions on the code units from U+3131 to U+314E, where the offset
  from U+AC00 is negative.\<close>

lemma offset_any:
  assumes "\<bar>n\<bar> < 2 ^ 52"
  shows "js_sub (of_int n) korGAUnicode = of_int (n - 0xAC00)"
proof -
  have "\<bar>n - 0xAC00\<bar> < 2 ^ 53" using assms by simp
  then have "js_sub (of_int n) (of_int 0xAC00) = of_int (n - 0xAC00)" by (rule js_sub_int)
  then show ?thesis by (simp add: korGAUnicode_def)
qed

lemma jamo_initial_index:
  assumes "0x3131 \<le> n" and "n \<le> 0x314E"
  shows "getInitialIndex (JSNumber (of_int n)) = Inr (- 54)"
proof -
  define k where "k = n - 0xAC00"
  have k: "- 31439 \<le> k" "k \<le> - 31410" using assms by (simp_all add: k_def)
  have "k div 588 * 588 + k mod 588 = k" "0 \<le> k mod 588" "k mod 588 < 588"
    by (simp_all add: div_mult_mod_eq)
  then have d: "k div 588 = - 54" using k by linarith
  have "js_mul (of_int 21) (of_int 28) = of_int (21 * 28)" by (rule js_mul_int) simp
  then have m: "js_mul medialCount finalCount = of_int 588"
    by (simp add: medialCount_def finalCount_def)
  have "\<lfloor>fl (of_int k / of_int 588)\<rfloor> = k div 588"
    using k by (intro floor_fl_div) simp_all
  moreover have "js_sub (of_int n) korGAUnicode = of_int k"
    unfolding k_def using assms by (intro offset_any) simp
  ultimately show ?thesis
    using m d by (simp add: getInitialIndex_def Math_floor_def js_div_def)
qed

lemma jamo_final_index:
  assumes "0x3131 \<le> n" and "n \<le> 0x314E"
  shows "getFinalIndex (JSNumber (of_int n)) = Inr (of_int (- ((0xAC00 - n) mod 28)))"
proof -
  define k where "k = n - 0xAC00"
  have k: "k < 0" using assms by (simp add: k_def)
  have "\<not> (0::rat) \<le> of_int k / of_int 28" using k by (simp add: divide_less_0_iff not_le)
  then have "js_trunc (of_int k / of_int 28) = \<lceil>(of_int k :: rat) / of_int 28\<rceil>"
    by (simp only: js_trunc_def if_False)
  also have "\<dots> = - \<lfloor>(of_int (- k) :: rat) / of_int 28\<rfloor>"
    by (simp add: ceiling_def)
  also have "\<dots> = - ((- k) div 28)"
    by (simp only: floor_divide_of_int_eq)
  finally have "js_rem (of_int k) (of_int 28) = of_int (k + 28 * ((- k) div 28))"
    by (simp add: js_rem_def)
  also have "k + 28 * ((- k) div 28) = - ((- k) mod 28)"
    using minus_mult_div_eq_mod [of "- k" 28] by simp
  finally have "js_rem (of_int k) finalCount = of_int (- ((- k) mod 28))"
    by (simp add: finalCount_def)
  moreover have "js_sub (of_int n) korGAUnicode = of_int k"
    unfolding k_def using assms by (intro offset_any) simp
  ultimately show ?thesis
    by (simp add: getFinalIndex_def Math_floor_def k_def)
qed

lemma jamo_medial_index:
  assumes "0x3131 \<le> n" and "n \<le> 0x314E"
  shows "getMedialIndex (JSNumber (of_int n)) = Inr (of_int ((n - 0xAC00) div 28 + 1113))"
proof -
  define k where "k = n - 0xAC00"
  define Q where "Q = fl (of_int k / of_int 28)"
  have k: "- 31439 \<le> k" "k \<le> - 31410" using assms by (simp_all add: k_def)
  have fQ: "\<lfloor>Q\<rfloor> = k div 28"
    unfolding Q_def using k by (intro floor_fl_div) simp_all
  have "k div 28 * 28 + k mod 28 = k" "0 \<le> k mod 28" "k mod 28 < 28"
    by (simp_all add: div_mult_mod_eq)
  then have d: "- 1123 \<le> k div 28" "k div 28 \<le> - 1122" using k by linarith+
  have "of_int \<lfloor>Q\<rfloor> \<le> Q" "Q < of_int \<lfloor>Q\<rfloor> + 1" by linarith+
  then have Qb: "- 1123 \<le> Q" "Q < - 1121" using fQ d by linarith+
  then have "\<not> 0 \<le> Q / of_int 21" by (simp add: not_le divide_less_0_iff)
  then have "js_trunc (Q / of_int 21) = \<lceil>Q / of_int 21\<rceil>"
    by (simp only: js_trunc_def if_False)
  also have "\<dots> = - 53"
    using Qb by (intro ceiling_unique) simp_all
  finally have "js_rem Q (of_int 21) = Q + of_int 1113"
    by (simp add: js_rem_def)
  then have "\<lfloor>js_rem Q (of_int 21)\<rfloor> = \<lfloor>Q\<rfloor> + 1113"
    by (simp only: floor_add_int)
  then have "Math_floor (js_rem Q medialCount) = of_int (k div 28 + 1113)"
    using fQ by (simp add: Math_floor_def medialCount_def)
  moreover have "js_sub (of_int n) korGAUnicode = of_int k"
    unfolding k_def using assms by (intro offset_any) simp
  ultimately show ?thesis
    by (simp add: getMedialIndex_def js_div_def Q_def k_def finalCount_def)
qed

lemma getInitialLetter_int:
  "\<bar>j + 0x1100\<bar> < 2 ^ 53 \<Longrightarrow> getInitialLetter (of_int j) = [word_of_int (j + 0x1100)]"
  using js_add_int [of j "0x1100"]
  by (simp add: getInitialLetter_def getLetterFromUnicode_def fromCharCode_def firstInitial_def
      js_trunc_def)

lemma getMedialLetter_int:
  "\<bar>j + 0x1161\<bar> < 2 ^ 53 \<Longrightarrow> getMedialLetter (of_int j) = [word_of_int (j + 0x1161)]"
  using js_add_int [of j "0x1161"]
  by (simp add: getMedialLetter_def getLetterFromUnicode_def fromCharCode_def firstMedial_def
      js_trunc_def)

lemma getFinalLetter_int:
  "\<bar>j + 0x11A7\<bar> < 2 ^ 53 \<Longrightarrow> getFinalLetter (of_int j) = [word_of_int (j + 0x11A7)]"
  using js_add_int [of j "0x11A7"]
  by (simp add: getFinalLetter_def getLetterFromUnicode_def fromCharCode_def firstFinal_def
      js_trunc_def)

text \<open>The scenarios of the specification, with the characters that the code returns.\<close>

lemma example_ga:
  "getGraphemeList [0xAC00] =
     Inr [\<lparr>isKorean = True, initial = [0x1100], medial = Some [0x1161], final = Some [0x11A7]\<rparr>]"
  by code_simp

lemma example_geul:
  "getGraphemeList [0xAE00] =
     Inr [\<lparr>isKorean = True, initial = [0x1100], medial = Some [0x1173], final = Some [0x11AF]\<rparr>]"
  by code_simp

lemma example_mixed:
  "getGraphemeList [0x61, 0xD55C, 0x31] =
     Inr [\<lparr>isKorean = False, initial = [0x61], medial = None, final = None\<rparr>,
          \<lparr>isKorean = True, initial = [0x1112], medial = Some [0x1161], final = Some [0x11AB]\<rparr>,
          \<lparr>isKorean = False, initial = [0x31], medial = None, final = None\<rparr>]"
  by code_simp

lemma example_getUnicode_ga: "getUnicode [0xAC00] = Inr (JSNumber 44032)"
  by code_simp

lemma example_standalone_giyeok:
  "getGraphemeList [0x3131] =
     Inr [\<lparr>isKorean = True, initial = [0x10CA], medial = Some [0x1157], final = Some [0x1190]\<rparr>]"
  by code_simp

lemma example_standalone_hieut:
  "getGraphemeList [0x314E] =
     Inr [\<lparr>isKorean = True, initial = [0x10CA], medial = Some [0x1158], final = Some [0x1191]\<rparr>]"
  by code_simp

section \<open>Claims about getGraphemeList and getUnicode\<close>

text \<open>
  C3. For every non-empty word, getGraphemeList returns one object per code point of the
  word, in the order of the code points: the letters of \<open>[...word]\<close> are as many as the code
  points, the \<open>i\<close>-th letter holds the \<open>i\<close>-th code point, the \<open>i\<close>-th object is the one the
  callback pushes for the \<open>i\<close>-th letter, and the letters, put together again, are the word.
\<close>

theorem one_result_per_letter:
  assumes "word \<noteq> []"
  shows "\<exists>rs. getGraphemeList word = Inr rs
           \<and> length rs = length (codePoints word)
           \<and> (\<forall>i < length rs.
                 codePointAt (splitWord word ! i) 0 = codePoints word ! i
                 \<and> pushGrapheme [] (splitWord word ! i) = Inr [rs ! i])
           \<and> concat (splitWord word) = word"
proof -
  obtain rs where rs: "getGraphemeList word = Inr rs" "length rs = length (splitWord word)"
      "\<forall>i < length rs. pushGrapheme [] (splitWord word ! i) = Inr [rs ! i]"
    using getGraphemeList_letters [OF assms] by blast
  have len: "length (codePoints word) = length (splitWord word)"
    using codePoints_splitWord [of word, symmetric] by simp
  have "\<forall>i < length rs. codePointAt (splitWord word ! i) 0 = codePoints word ! i"
    using codePoints_splitWord [of word, symmetric] rs(2) by simp
  then show ?thesis
    using rs len splitWord_concat [of word] by auto
qed

theorem one_result_per_letter_witness:
  "[0x61, 0xD55C, 0x31] \<noteq> ([] :: jsstring)
   \<and> (\<exists>rs. getGraphemeList [0x61, 0xD55C, 0x31] = Inr rs
           \<and> length rs = length (codePoints [0x61, 0xD55C, 0x31])
           \<and> (\<forall>i < length rs.
                 codePointAt (splitWord [0x61, 0xD55C, 0x31] ! i) 0 = codePoints [0x61, 0xD55C, 0x31] ! i
                 \<and> pushGrapheme [] (splitWord [0x61, 0xD55C, 0x31] ! i) = Inr [rs ! i])
           \<and> concat (splitWord [0x61, 0xD55C, 0x31]) = [0x61, 0xD55C, 0x31])"
  using one_result_per_letter [of "[0x61, 0xD55C, 0x31]"] by simp

text \<open>
  C4. The bar U+007C lies in neither range, yet the character class of the regular
  expression holds it: getGraphemeList takes \<open>"|"\<close> for Korean and runs the syllable
  arithmetic on it.
\<close>

theorem bar_is_split_as_korean:
  "\<not> (0x3131 \<le> (0x7C :: 16 word) \<and> (0x7C :: 16 word) \<le> 0x314E)
   \<and> \<not> (0xAC00 \<le> (0x7C :: 16 word) \<and> (0x7C :: 16 word) \<le> 0xD7A3)
   \<and> matchKorean [0x7C]
   \<and> getGraphemeList [0x7C] =
       Inr [\<lparr>isKorean = True, initial = [0x10B5], medial = Some [0x1152], final = Some [0x11A3]\<rparr>]"
  by code_simp

text \<open>
  C5, as stated, expects the compatibility jamo U+314E, U+314F, U+3134 of the example.
  getGraphemeList does not return them for U+D55C.
\<close>

theorem han_not_compatibility_jamo:
  "getGraphemeList [0xD55C] \<noteq>
     Inr [\<lparr>isKorean = True, initial = [0x314E], medial = Some [0x314F], final = Some [0x3134]\<rparr>]"
  by (simp add: han_value)

text \<open>
  C5, amended. For the one-letter word U+D55C, getGraphemeList returns one object with
  \<open>isKorean\<close> true and the conjoining jamo U+1112, U+1161, U+11AB as initial, medial
  and final.
\<close>

theorem han_conjoining_jamo:
  "getGraphemeList [0xD55C] =
     Inr [\<lparr>isKorean = True, initial = [0x1112], medial = Some [0x1161], final = Some [0x11AB]\<rparr>]"
  by (rule han_value)

text \<open>
  C6. For every syllable from U+AC00 to U+D7A3 whose final index is 0, the object that
  getGraphemeList returns has a final, the one-unit string U+11A7.
\<close>

theorem final_index_zero_gives_filler:
  fixes c :: "16 word"
  assumes "0xAC00 \<le> c" and "c \<le> 0xD7A3"
    and "getFinalIndex (JSNumber (of_int (uint c))) = Inr 0"
  shows "\<exists>r. getGraphemeList [c] = Inr [r] \<and> isKorean r \<and> final r = Some [0x11A7]"
proof -
  obtain i m f where s: "splitGrapheme (JSNumber (of_int (uint c))) = Inr (i, m, f)"
    using splitGrapheme_number by blast
  then have "f = 0"
    using assms(3) by (simp add: splitGrapheme_def split: sum.splits)
  then show ?thesis
    using getGraphemeList_unit [OF syllable_is_korean [OF assms(1,2)] s]
    by (simp add: getFinalLetter_zero)
qed

theorem final_index_zero_gives_filler_witness:
  "(0xAC00 :: 16 word) \<le> 0xAC00 \<and> (0xAC00 :: 16 word) \<le> 0xD7A3
   \<and> getFinalIndex (JSNumber (of_int (uint (0xAC00 :: 16 word)))) = Inr 0
   \<and> (\<exists>r. getGraphemeList [0xAC00] = Inr [r] \<and> isKorean r \<and> final r = Some [0x11A7])"
proof -
  have f: "getFinalIndex (JSNumber (of_int (uint (0xAC00 :: 16 word)))) = Inr 0"
    using getFinalIndex_int [of "0xAC00"] by simp
  show ?thesis
    using final_index_zero_gives_filler [of "0xAC00", OF _ _ f] f by simp
qed

text \<open>
  C7. getGraphemeList throws "the parameter must be at least one letter" exactly when the
  word is empty, and it throws nothing else: a thrown call returns no objects (the result is
  the error alone), and a non-empty word never throws.
\<close>

theorem empty_word_error:
  "(getGraphemeList word = Inl AtLeastOneLetter) = (word = [])
   \<and> (\<exists>e. getGraphemeList word = Inl e) = (word = [])"
proof (cases "word = []")
  case True
  then show ?thesis by (simp add: getGraphemeList_def)
next
  case False
  then obtain rs where "getGraphemeList word = Inr rs"
    using getGraphemeList_letters by blast
  then show ?thesis using False by simp
qed

theorem empty_word_error_witness:
  "getGraphemeList [] = Inl AtLeastOneLetter
   \<and> getGraphemeList [0x61] \<noteq> Inl AtLeastOneLetter
   \<and> (\<nexists>e. getGraphemeList [0x61] = Inl e)"
  using empty_word_error [of "[]"] empty_word_error [of "[0x61]"] by simp

text \<open>
  C8. For every letter from U+3131 to U+314E, getGraphemeList throws nothing and pushes an
  object with \<open>isKorean\<close> true, whose letters are the ones that the arithmetic of the
  syllables gives on the negative offset \<open>c - 0xAC00\<close>: the initial index is
  \<open>floor (offset / 588) = - 54\<close>, the medial index \<open>floor ((offset / 28) % 21)\<close> is
  \<open>offset div 28 + 1113\<close> (that is \<open>- 10\<close> below U+3148 and \<open>- 9\<close> from there on), the final index
  \<open>offset % 28\<close> is \<open>- ((0xAC00 - c) mod 28)\<close>, and each letter is the code unit of its base
  plus its index, so the initial is always U+10CA.
\<close>

theorem standalone_jamo_same_arithmetic:
  fixes c :: "16 word"
  assumes "0x3131 \<le> c" and "c \<le> 0x314E"
  shows "getUnicode [c] = Inr (JSNumber (of_int (uint c)))
     \<and> splitGrapheme (JSNumber (of_int (uint c))) =
         Inr (- 54, of_int ((uint c - 0xAC00) div 28 + 1113),
              of_int (- ((0xAC00 - uint c) mod 28)))
     \<and> getGraphemeList [c] =
         Inr [\<lparr>isKorean = True, initial = [0x10CA],
               medial = Some [word_of_int ((uint c - 0xAC00) div 28 + 1113 + 0x1161)],
               final = Some [word_of_int (- ((0xAC00 - uint c) mod 28) + 0x11A7)]\<rparr>]
     \<and> (\<forall>arr. pushGrapheme arr [c] =
         Inr (arr @ [\<lparr>isKorean = True, initial = [0x10CA],
               medial = Some [word_of_int ((uint c - 0xAC00) div 28 + 1113 + 0x1161)],
               final = Some [word_of_int (- ((0xAC00 - uint c) mod 28) + 0x11A7)]\<rparr>]))"
proof -
  define n where "n = uint c"
  define m where "m = (n - 0xAC00) div 28 + 1113"
  define f where "f = - ((0xAC00 - n) mod 28)"
  have n: "0x3131 \<le> n" "n \<le> 0x314E"
    using assms by (simp_all add: n_def word_le_def)
  have s: "splitGrapheme (JSNumber (of_int n)) = Inr (of_int (- 54), of_int m, of_int f)"
    using jamo_initial_index [OF n] jamo_medial_index [OF n] jamo_final_index [OF n]
    by (simp add: splitGrapheme_def m_def f_def)
  have "(n - 0xAC00) div 28 * 28 + (n - 0xAC00) mod 28 = n - 0xAC00"
      "0 \<le> (n - 0xAC00) mod 28" "(n - 0xAC00) mod 28 < 28"
    by (simp_all add: div_mult_mod_eq)
  then have "- 1123 \<le> (n - 0xAC00) div 28" "(n - 0xAC00) div 28 \<le> - 1122"
    using n by linarith+
  then have mb: "\<bar>m + 0x1161\<bar> < 2 ^ 53" unfolding m_def by simp
  have "0 \<le> (0xAC00 - n) mod 28" "(0xAC00 - n) mod 28 < 28" by simp_all
  then have fb: "\<bar>f + 0x11A7\<bar> < 2 ^ 53" unfolding f_def by simp
  have i: "getInitialLetter (of_int (- 54)) = [0x10CA]"
    using getInitialLetter_int [of "- 54"] by simp
  note k = jamo_is_korean [OF assms]
  note s' = s [unfolded n_def]
  have "getGraphemeList [c] =
      Inr [\<lparr>isKorean = True, initial = [0x10CA],
            medial = Some [word_of_int (m + 0x1161)], final = Some [word_of_int (f + 0x11A7)]\<rparr>]"
    using getGraphemeList_unit [OF k s'] i getMedialLetter_int [OF mb] getFinalLetter_int [OF fb]
    by simp
  moreover have "\<forall>arr. pushGrapheme arr [c] =
      Inr (arr @ [\<lparr>isKorean = True, initial = [0x10CA],
            medial = Some [word_of_int (m + 0x1161)], final = Some [word_of_int (f + 0x11A7)]\<rparr>])"
    using pushGrapheme_korean_unit [OF k s'] i getMedialLetter_int [OF mb]
      getFinalLetter_int [OF fb]
    by simp
  ultimately show ?thesis
    using s' getUnicode_unit [of c] by (simp add: m_def f_def n_def)
qed

theorem standalone_jamo_same_arithmetic_witness:
  "(0x3131 :: 16 word) \<le> 0x3131 \<and> (0x3131 :: 16 word) \<le> 0x314E
   \<and> getUnicode [0x3131] = Inr (JSNumber 0x3131)
   \<and> splitGrapheme (JSNumber 0x3131) = Inr (- 54, - 10, - 23)
   \<and> getGraphemeList [0x3131] =
       Inr [\<lparr>isKorean = True, initial = [0x10CA], medial = Some [0x1157],
             final = Some [0x1190]\<rparr>]
   \<and> (\<forall>arr. pushGrapheme arr [0x3131] =
       Inr (arr @ [\<lparr>isKorean = True, initial = [0x10CA], medial = Some [0x1157],
             final = Some [0x1190]\<rparr>]))"
  using standalone_jamo_same_arithmetic [of "0x3131"] by simp

text \<open>
  C9. A code point above U+FFFF is one letter of \<open>[...word]\<close> and codePointAt reads it
  whole, but it is two code units long, and getUnicode throws on it.
\<close>

theorem getUnicode_rejects_astral:
  "splitWord [0xD83D, 0xDE00] = [[0xD83D, 0xDE00]]
   \<and> codePointAt [0xD83D, 0xDE00] 0 = JSNumber 0x1F600
   \<and> getUnicode [0xD83D, 0xDE00] = Inl ExactlyOneLetter"
  by code_simp

text \<open>
  C10. For every non-empty word getGraphemeList returns normally. Every letter that the
  regular expression matches is one code unit long, getUnicode returns a number for it,
  and the three index functions return for that number.
\<close>

theorem nonempty_word_never_throws:
  assumes "word \<noteq> []"
  shows "(\<exists>rs. getGraphemeList word = Inr rs)
     \<and> (\<forall>l \<in> set (splitWord word). matchKorean l \<longrightarrow>
           length l = 1
           \<and> (\<exists>n. getUnicode l = Inr (JSNumber n)
                \<and> (\<exists>i m f. getInitialIndex (JSNumber n) = Inr i
                      \<and> getMedialIndex (JSNumber n) = Inr m
                      \<and> getFinalIndex (JSNumber n) = Inr f)))"
proof (intro conjI ballI impI)
  show "\<exists>rs. getGraphemeList word = Inr rs"
    using getGraphemeList_letters [OF assms] by blast
next
  fix l assume "l \<in> set (splitWord word)" and "matchKorean l"
  then obtain a where a: "l = [a]" using matchKorean_letter by blast
  then show "length l = 1" by simp
  show "\<exists>n. getUnicode l = Inr (JSNumber n)
          \<and> (\<exists>i m f. getInitialIndex (JSNumber n) = Inr i
                \<and> getMedialIndex (JSNumber n) = Inr m
                \<and> getFinalIndex (JSNumber n) = Inr f)"
    using a getUnicode_unit [of a]
    by (simp add: getInitialIndex_def getMedialIndex_def getFinalIndex_def)
qed

theorem nonempty_word_never_throws_witness:
  "[0xD83D, 0xDE00, 0xD55C] \<noteq> ([] :: jsstring)
   \<and> (\<exists>rs. getGraphemeList [0xD83D, 0xDE00, 0xD55C] = Inr rs)
   \<and> list_all (\<lambda>l. matchKorean l \<longrightarrow>
           length l = 1
           \<and> (\<exists>n. getUnicode l = Inr (JSNumber n)
                \<and> (\<exists>i m f. getInitialIndex (JSNumber n) = Inr i
                      \<and> getMedialIndex (JSNumber n) = Inr m
                      \<and> getFinalIndex (JSNumber n) = Inr f)))
        (splitWord [0xD83D, 0xDE00, 0xD55C])"
  using nonempty_word_never_throws [of "[0xD83D, 0xDE00, 0xD55C]"]
  by (simp add: list_all_iff)


end
